theory Spec2Isabelle
  imports Main "HOL-Library.AList"
begin

section \<open>Data model of the language server manager\<close>

text \<open>
  The development embeds \<^verbatim>\<open>jupyter_lsp/manager.py\<close> (class
  \<^verbatim>\<open>LanguageServerManager\<close>). Python dictionaries are association lists
  in insertion order whose keys are distinct; \<^verbatim>\<open>d[k] = v\<close> is
  \<^const>\<open>AList.update\<close> (replace in place, or append a new key at the end).
  Names of the source that start with an underscore lose it, since an
  Isabelle name cannot start with one.
\<close>

type_synonym server_key = string
type_synonym message = string
type_synonym listener = string
type_synonym session_ref = nat

text \<open>
  A language server spec is a dictionary; \<open>argv\<close> is \<open>None\<close> when the key
  \<^verbatim>\<open>"argv"\<close> is absent. The other fields of a spec are carried along
  untouched.
\<close>

record spec =
  argv :: "string list option"
  other_fields :: "(string \<times> string) list"

type_synonym keyed_specs = "(server_key \<times> spec) list"

datatype MessageScope = MessageScope_ALL | MessageScope_CLIENT | MessageScope_SERVER

text \<open>The outcome of a call into code outside the manager: it returns or it raises.\<close>

datatype 'a call = Returns 'a | Raises

text \<open>
  A spec finder, as the manager sees it: \<open>is_installed\<close> is \<open>None\<close> when the
  object has no attribute \<^verbatim>\<open>is_installed\<close>; \<open>find_specs\<close> is the outcome
  of \<^verbatim>\<open>spec_finder(self)\<close>, which returns a dictionary or \<^verbatim>\<open>None\<close>.
\<close>

record spec_finder =
  is_installed :: "bool call option"
  find_specs :: "keyed_specs option call"

record entry_point =
  ep_name :: string
  ep_load :: "spec_finder call"

text \<open>A handler is a client connection: an identity and the key it is bound to.\<close>

record handler =
  handler_id :: nat
  language_server :: server_key

text \<open>
  Modelled from the spec: the session object (\<^verbatim>\<open>session.py\<close> is not among the
  sources). A session is bound to one key and one spec and holds the set of
  subscribed handlers; the list is that set in its iteration order.
\<close>

record session =
  session_language_server :: server_key
  session_spec :: spec
  handlers :: "handler list"

datatype log_level = ERROR | WARNING | INFO

text \<open>
  What the manager does to the world around it, in the order in which it happens: a
  log record, the registration of a listener, the creation of a session object, the
  invocation and the completion of a listener for a message and a key, a
  \<^verbatim>\<open>write\<close> to a session, and a \<^verbatim>\<open>write_message\<close> on a handler that has
  returned.
\<close>

datatype event =
    Log log_level string
  | ListenerRegistered MessageScope listener
  | SessionCreated server_key session_ref
  | ListenerInvoked listener message server_key
  | ListenerCompleted listener message server_key
  | SessionWrite session_ref message
  | HandlerWriteMessage handler message

text \<open>
  The manager object. \<open>heap\<close> holds the session objects that \<open>sessions\<close>
  refers to, \<open>next_ref\<close> is the next unused reference, and \<open>registered\<close> is the
  listener table of the class (\<^verbatim>\<open>register_message_listener\<close>).
\<close>

record manager =
  conf_d_language_servers :: keyed_specs
  language_servers :: keyed_specs
  autodetect :: bool
  sessions :: "(server_key \<times> session_ref) list"
  all_listeners :: "listener list"
  server_listeners :: "listener list"
  client_listeners :: "listener list"
  all_language_servers :: keyed_specs
  language_servers_from_config :: keyed_specs
  heap :: "session_ref \<Rightarrow> session"
  next_ref :: session_ref
  registered :: "MessageScope \<Rightarrow> listener list"

text \<open>
  What the manager calls outside itself: the entry point registry
  (\<^verbatim>\<open>entrypoints.get_group_named\<close>) for spec finders and for the listeners
  of each scope, the schema validator
  (\<^verbatim>\<open>LANGUAGE_SERVER_SPEC_MAP.iter_errors\<close>) and the handlers'
  \<^verbatim>\<open>write_message\<close>.
\<close>

record env =
  spec_entry_points :: "entry_point list call"
  listener_entry_points :: "MessageScope \<Rightarrow> (string \<times> listener call) list call"
  iter_errors :: "keyed_specs \<Rightarrow> string list"
  write_message :: "handler \<Rightarrow> message \<Rightarrow> unit call"

section \<open>Dictionaries\<close>

text \<open>\<^verbatim>\<open>d.update(items)\<close>: the items are stored one after the other.\<close>

definition dict_update :: "('k \<times> 'v) list \<Rightarrow> ('k \<times> 'v) list \<Rightarrow> ('k \<times> 'v) list" where
  "dict_update d items = fold (\<lambda>(k, v) acc. AList.update k v acc) items d"

text \<open>\<^verbatim>\<open>spec.get("argv")\<close> as a condition: present and not empty.\<close>

definition has_argv :: "spec \<Rightarrow> bool" where
  "has_argv sp = (case argv sp of None \<Rightarrow> False | Some a \<Rightarrow> a \<noteq> [])"

section \<open>Resolving the language server specs\<close>

text \<open>
  One turn of the loop of \<^verbatim>\<open>_autodetect_language_servers\<close>: the pairs the
  entry point yields and what is logged.
\<close>

definition specs_from_entry_point ::
  "(keyed_specs \<Rightarrow> string list) \<Rightarrow> bool \<Rightarrow> entry_point \<Rightarrow> keyed_specs \<times> event list" where
  "specs_from_entry_point errors_of only_installed ep =
     (case ep_load ep of
        Raises \<Rightarrow>
          ([], [Log WARNING (''Failed to load language server spec finder `'' @ ep_name ep @ ''`'')])
      | Returns finder \<Rightarrow>
          (case (if only_installed then is_installed finder else None) of
             Some Raises \<Rightarrow>
               ([], [Log WARNING
                 (''Failed to fetch commands from language server spec finder `'' @ ep_name ep @ ''`'')])
           | Some (Returns False) \<Rightarrow>
               ([], [Log INFO (''Skipping non-installed server: `'' @ ep_name ep @ ''`'')])
           | _ \<Rightarrow>
               (case find_specs finder of
                  Raises \<Rightarrow>
                    ([], [Log WARNING
                      (''Failed to fetch commands from language server spec finder `''
                         @ ep_name ep @ ''`'')])
                | Returns found \<Rightarrow>
                    (let specs = (case found of None \<Rightarrow> [] | Some d \<Rightarrow> d) in
                     if errors_of specs \<noteq> [] then
                       ([], [Log WARNING
                         (''Failed to validate commands from language server spec finder `''
                            @ ep_name ep @ ''`'')])
                     else (specs, [])))))"

text \<open>The entry points the loop runs over: none when the registry raises.\<close>

definition loaded_entry_points :: "env \<Rightarrow> entry_point list \<times> event list" where
  "loaded_entry_points e =
     (case spec_entry_points e of
        Raises \<Rightarrow> ([], [Log ERROR ''Failed to load entry_points''])
      | Returns eps \<Rightarrow> (eps, []))"

definition autodetect_language_servers :: "env \<Rightarrow> bool \<Rightarrow> keyed_specs \<times> event list" where
  "autodetect_language_servers e only_installed =
     (let (entry_points, evs) = loaded_entry_points e;
          rs = map (specs_from_entry_point (iter_errors e) only_installed) entry_points
      in (concat (map fst rs), evs @ concat (map snd rs)))"

text \<open>
  \<^verbatim>\<open>_collect_language_servers\<close> up to its last line: the dictionary before
  the specs without \<^verbatim>\<open>argv\<close> are dropped.
\<close>

definition merged_language_servers :: "env \<Rightarrow> manager \<Rightarrow> bool \<Rightarrow> keyed_specs \<times> event list" where
  "merged_language_servers e m only_installed =
     (let from_config =
            dict_update (dict_update [] (language_servers_from_config m))
              (conf_d_language_servers m);
          (detected, evs) =
            (if autodetect m then
               (let (found, evs) = autodetect_language_servers e only_installed
                in (dict_update [] found, evs))
             else ([], []))
      in (dict_update detected from_config, evs))"

definition collect_language_servers :: "env \<Rightarrow> manager \<Rightarrow> bool \<Rightarrow> keyed_specs \<times> event list" where
  "collect_language_servers e m only_installed =
     (let (merged, evs) = merged_language_servers e m only_installed
      in (filter (\<lambda>(key, sp). has_argv sp) merged, evs))"

definition init_language_servers :: "env \<Rightarrow> manager \<Rightarrow> manager \<times> event list" where
  "init_language_servers e m =
     (let m1 = m\<lparr>language_servers_from_config := dict_update [] (language_servers m)\<rparr>;
          (operative, evs1) = collect_language_servers e m1 True;
          m2 = m1\<lparr>language_servers := operative\<rparr>;
          (known, evs2) = collect_language_servers e m2 False
      in (m2\<lparr>all_language_servers := known\<rparr>, evs1 @ evs2))"

section \<open>Listeners\<close>

definition get_listeners :: "MessageScope \<Rightarrow> manager \<Rightarrow> listener list" where
  "get_listeners scope m =
     (case scope of
        MessageScope_ALL \<Rightarrow> all_listeners m
      | MessageScope_CLIENT \<Rightarrow> client_listeners m
      | MessageScope_SERVER \<Rightarrow> server_listeners m)"

definition set_listeners :: "MessageScope \<Rightarrow> listener list \<Rightarrow> manager \<Rightarrow> manager" where
  "set_listeners scope ls m =
     (case scope of
        MessageScope_ALL \<Rightarrow> m\<lparr>all_listeners := ls\<rparr>
      | MessageScope_CLIENT \<Rightarrow> m\<lparr>client_listeners := ls\<rparr>
      | MessageScope_SERVER \<Rightarrow> m\<lparr>server_listeners := ls\<rparr>)"

text \<open>
  Modelled from the spec: \<^verbatim>\<open>register_message_listener\<close> (defined in
  \<^verbatim>\<open>types.py\<close>, which is not among the sources). Registration appends the
  callable to the sequence of its scope; nothing is ever removed.
\<close>

definition register_message_listener ::
  "MessageScope \<Rightarrow> listener \<Rightarrow> manager \<Rightarrow> manager \<times> event list" where
  "register_message_listener scope l m =
     (m\<lparr>registered := (registered m)(scope := registered m scope @ [l])\<rparr>,
      [ListenerRegistered scope l])"

text \<open>
  Modelled from the spec: \<^verbatim>\<open>wait_for_listeners\<close> (defined in
  \<^verbatim>\<open>types.py\<close>, which is not among the sources). Every callable registered
  under the scope and every callable registered under \<open>ALL\<close> is invoked, in
  registration order, with the message and the server key; the caller goes on when
  all of them have completed.
\<close>

definition wait_for_listeners ::
  "MessageScope \<Rightarrow> message \<Rightarrow> server_key \<Rightarrow> manager \<Rightarrow> event list" where
  "wait_for_listeners scope msg key m =
     concat (map (\<lambda>l. [ListenerInvoked l msg key, ListenerCompleted l msg key])
       (registered m scope @ registered m MessageScope_ALL))"

text \<open>
  The first inner loop of \<^verbatim>\<open>init_listeners\<close>: each entry point that loads is
  appended to the configured list, each one that fails is logged.
\<close>

fun load_listener_entry_points ::
  "(string \<times> listener call) list \<Rightarrow> listener list \<Rightarrow> listener list \<times> event list" where
  "load_listener_entry_points [] listeners = (listeners, [])"
| "load_listener_entry_points ((name, ept) # rest) listeners =
     (case ept of
        Returns l \<Rightarrow> load_listener_entry_points rest (listeners @ [l])
      | Raises \<Rightarrow>
          (let (ls, evs) = load_listener_entry_points rest listeners
           in (ls, Log WARNING (''Failed to load entry point '' @ name) # evs)))"

text \<open>The second inner loop: every listener of the list is registered under the scope.\<close>

fun register_listeners ::
  "MessageScope \<Rightarrow> listener list \<Rightarrow> manager \<Rightarrow> manager \<times> event list" where
  "register_listeners scope [] m = (m, [])"
| "register_listeners scope (l # ls) m =
     (let (m1, evs1) = register_message_listener scope l m;
          (m2, evs2) = register_listeners scope ls m1
      in (m2, evs1 @ evs2))"

definition init_listeners_scope ::
  "env \<Rightarrow> MessageScope \<Rightarrow> manager \<Rightarrow> unit call \<times> manager \<times> event list" where
  "init_listeners_scope e scope m =
     (case listener_entry_points e scope of
        Raises \<Rightarrow> (Raises, m, [])
      | Returns eps \<Rightarrow>
          (let (listeners, evs1) = load_listener_entry_points eps (get_listeners scope m);
               m1 = set_listeners scope listeners m;
               (m2, evs2) = register_listeners scope listeners m1
           in (Returns (), m2, evs1 @ evs2)))"

fun init_listeners_scopes ::
  "env \<Rightarrow> MessageScope list \<Rightarrow> manager \<Rightarrow> unit call \<times> manager \<times> event list" where
  "init_listeners_scopes e [] m = (Returns (), m, [])"
| "init_listeners_scopes e (scope # scopes) m =
     (case init_listeners_scope e scope m of
        (Raises, m1, evs1) \<Rightarrow> (Raises, m1, evs1)
      | (Returns u, m1, evs1) \<Rightarrow>
          (let (r, m2, evs2) = init_listeners_scopes e scopes m1
           in (r, m2, evs1 @ evs2)))"

definition init_listeners :: "env \<Rightarrow> manager \<Rightarrow> unit call \<times> manager \<times> event list" where
  "init_listeners e m =
     init_listeners_scopes e [MessageScope_ALL, MessageScope_CLIENT, MessageScope_SERVER] m"

section \<open>Sessions\<close>

text \<open>
  The loop of \<^verbatim>\<open>init_sessions\<close>: one new session object for each resolved
  spec, with no handler subscribed.
\<close>

fun build_sessions ::
  "keyed_specs \<Rightarrow> (server_key \<times> session_ref) list \<Rightarrow> manager \<Rightarrow>
   (server_key \<times> session_ref) list \<times> manager \<times> event list" where
  "build_sessions [] acc m = (acc, m, [])"
| "build_sessions ((key, sp) # rest) acc m =
     (let r = next_ref m;
          m1 = m\<lparr>heap := (heap m)(r :=
                   \<lparr>session_language_server = key, session_spec = sp, handlers = []\<rparr>),
                 next_ref := Suc r\<rparr>;
          (acc', m2, evs) = build_sessions rest (AList.update key r acc) m1
      in (acc', m2, SessionCreated key r # evs))"

definition init_sessions :: "manager \<Rightarrow> manager \<times> event list" where
  "init_sessions m =
     (let (built, m1, evs) = build_sessions (language_servers m) [] m
      in (m1\<lparr>sessions := built\<rparr>, evs))"

definition initialize :: "env \<Rightarrow> manager \<Rightarrow> unit call \<times> manager \<times> event list" where
  "initialize e m =
     (let (m1, evs1) = init_language_servers e m in
      case init_listeners e m1 of
        (Raises, m2, evs2) \<Rightarrow> (Raises, m2, evs1 @ evs2)
      | (Returns u, m2, evs2) \<Rightarrow>
          (let (m3, evs3) = init_sessions m2
           in (Returns (), m3, evs1 @ evs2 @ evs3)))"

section \<open>Subscriptions and message forwarding\<close>

text \<open>
  \<^verbatim>\<open>subscribe\<close>: how the call ends, the manager afterwards and what has happened.
  \<^verbatim>\<open>session.handlers = set([handler]) | session.handlers\<close> is the union of sets,
  which adds the handler unless it is a member already.
\<close>

definition subscribe :: "handler \<Rightarrow> manager \<Rightarrow> unit call \<times> manager \<times> event list" where
  "subscribe h m =
     (case map_of (sessions m) (language_server h) of
        None \<Rightarrow>
          (Returns (), m,
           [Log ERROR (''['' @ language_server h @ ''] no session: handler subscription failed'')])
      | Some r \<Rightarrow>
          (Returns (),
           m\<lparr>heap := (heap m)(r :=
               (heap m r)\<lparr>handlers := List.union [h] (handlers (heap m r))\<rparr>)\<rparr>, []))"

text \<open>\<^verbatim>\<open>session.handlers = [h for h in session.handlers if h != handler]\<close>.\<close>

definition unsubscribe :: "handler \<Rightarrow> manager \<Rightarrow> unit call \<times> manager \<times> event list" where
  "unsubscribe h m =
     (case map_of (sessions m) (language_server h) of
        None \<Rightarrow>
          (Returns (), m,
           [Log ERROR
             (''['' @ language_server h @ ''] no session: handler unsubscription failed'')])
      | Some r \<Rightarrow>
          (Returns (),
           m\<lparr>heap := (heap m)(r :=
               (heap m r)\<lparr>handlers := filter (\<lambda>h'. h' \<noteq> h) (handlers (heap m r))\<rparr>)\<rparr>, []))"

text \<open>
  \<^verbatim>\<open>on_client_message\<close>, for any behaviour of the dispatch it awaits. The call
  \<^verbatim>\<open>await self.wait_for_listeners(...)\<close> goes into code that is not among the
  sources and is not guarded: \<open>dispatch\<close> says how that call ends and what has
  happened until then. When it raises, the exception leaves \<^verbatim>\<open>on_client_message\<close>
  before the session is looked up.

  Modelled from the spec: \<^verbatim>\<open>Session.write\<close> (\<^verbatim>\<open>session.py\<close> is not among the
  sources) takes the message for the language server and returns; it is the event
  \<open>SessionWrite\<close>. The manager itself is returned as it was.
\<close>

definition on_client_message_with ::
  "(MessageScope \<Rightarrow> message \<Rightarrow> server_key \<Rightarrow> manager \<Rightarrow> unit call \<times> event list) \<Rightarrow>
   message \<Rightarrow> handler \<Rightarrow> manager \<Rightarrow> unit call \<times> manager \<times> event list" where
  "on_client_message_with dispatch msg h m =
     (case dispatch MessageScope_CLIENT msg (language_server h) m of
        (Raises, evs) \<Rightarrow> (Raises, m, evs)
      | (Returns u, evs) \<Rightarrow>
          (case map_of (sessions m) (language_server h) of
             None \<Rightarrow>
               (Returns (), m,
                evs @ [Log ERROR
                  (''['' @ language_server h @ ''] no session: client message dropped'')])
           | Some r \<Rightarrow> (Returns (), m, evs @ [SessionWrite r msg])))"

text \<open>
  The dispatch as the spec describes it: every listener runs to completion and the
  call returns. \<open>on_client_message\<close> is \<^verbatim>\<open>on_client_message\<close> with this
  dispatch: the manager afterwards and what has happened.
\<close>

definition dispatch_to_completion ::
  "MessageScope \<Rightarrow> message \<Rightarrow> server_key \<Rightarrow> manager \<Rightarrow> unit call \<times> event list" where
  "dispatch_to_completion scope msg key m = (Returns (), wait_for_listeners scope msg key m)"

definition on_client_message :: "message \<Rightarrow> handler \<Rightarrow> manager \<Rightarrow> manager \<times> event list" where
  "on_client_message msg h m = snd (on_client_message_with dispatch_to_completion msg h m)"

text \<open>
  The last loop of \<^verbatim>\<open>on_server_message\<close>: \<^verbatim>\<open>write_message\<close> is called
  on one handler after the other, and an exception leaves the loop.
\<close>

fun broadcast ::
  "(handler \<Rightarrow> message \<Rightarrow> unit call) \<Rightarrow> message \<Rightarrow> handler list \<Rightarrow> unit call \<times> event list" where
  "broadcast wm msg [] = (Returns (), [])"
| "broadcast wm msg (h # hs) =
     (case wm h msg of
        Raises \<Rightarrow> (Raises, [])
      | Returns u \<Rightarrow>
          (let (r, evs) = broadcast wm msg hs
           in (r, HandlerWriteMessage h msg # evs)))"

text \<open>
  \<^verbatim>\<open>on_server_message\<close>: the keys whose session is the given one, the listeners
  of the \<open>SERVER\<close> scope for each of these keys, then the broadcast to the handlers
  of the session.
\<close>

definition on_server_message ::
  "env \<Rightarrow> message \<Rightarrow> session_ref \<Rightarrow> manager \<Rightarrow> unit call \<times> event list" where
  "on_server_message e msg sess m =
     (let keys = map fst (filter (\<lambda>(ls_key, s). s = sess) (sessions m));
          evs1 = concat (map (\<lambda>key. wait_for_listeners MessageScope_SERVER msg key m) keys);
          (r, evs2) = broadcast (write_message e) msg (handlers (heap m sess))
      in (r, evs1 @ evs2))"



section \<open>Providers that are left out when only installed servers are wanted\<close>

text \<open>
  The entry points whose turn of the loop ends at the \<^verbatim>\<open>is_installed\<close> check when
  \<^verbatim>\<open>only_installed\<close> is true: the check says no, or it raises.
\<close>

definition skipped_when_only_installed :: "entry_point \<Rightarrow> bool" where
  "skipped_when_only_installed ep =
     (case ep_load ep of
        Raises \<Rightarrow> False
      | Returns finder \<Rightarrow>
          (case is_installed finder of
             Some Raises \<Rightarrow> True
           | Some (Returns False) \<Rightarrow> True
           | _ \<Rightarrow> False))"

text \<open>
  The last entry point, in the order of the loop, that yields the key when every
  provider is asked (\<^verbatim>\<open>only_installed\<close> false).
\<close>

definition last_yielder :: "env \<Rightarrow> server_key \<Rightarrow> entry_point option" where
  "last_yielder e k =
     List.find (\<lambda>ep. k \<in> set (map fst (fst (specs_from_entry_point (iter_errors e) False ep))))
       (rev (fst (loaded_entry_points e)))"

text \<open>
  The last entry point that yields the key is not left out, or the last spec it yields
  for the key is the given one.
\<close>

definition last_yielder_agrees :: "env \<Rightarrow> server_key \<Rightarrow> spec \<Rightarrow> bool" where
  "last_yielder_agrees e k sp =
     (case last_yielder e k of
        None \<Rightarrow> True
      | Some ep \<Rightarrow>
          (if skipped_when_only_installed ep
           then map_of (rev (fst (specs_from_entry_point (iter_errors e) False ep))) k = Some sp
           else True))"

section \<open>Kinds of events\<close>

fun is_log :: "event \<Rightarrow> bool" where
  "is_log (Log level text) = True"
| "is_log ev = False"

fun is_listener_registered :: "event \<Rightarrow> bool" where
  "is_listener_registered (ListenerRegistered scope l) = True"
| "is_listener_registered ev = False"

fun is_session_created :: "event \<Rightarrow> bool" where
  "is_session_created (SessionCreated key r) = True"
| "is_session_created ev = False"

section \<open>Example configurations\<close>

definition blank_session :: session where
  "blank_session =
     \<lparr>session_language_server = [], session_spec = \<lparr>argv = None, other_fields = []\<rparr>,
      handlers = []\<rparr>"

definition blank_manager :: manager where
  "blank_manager =
     \<lparr>conf_d_language_servers = [], language_servers = [], autodetect = True, sessions = [],
      all_listeners = [], server_listeners = [], client_listeners = [],
      all_language_servers = [], language_servers_from_config = [],
      heap = (\<lambda>r. blank_session), next_ref = 0, registered = (\<lambda>scope. [])\<rparr>"

definition blank_env :: env where
  "blank_env =
     \<lparr>spec_entry_points = Returns [], listener_entry_points = (\<lambda>scope. Returns []),
      iter_errors = (\<lambda>specs. []), write_message = (\<lambda>h msg. Returns ())\<rparr>"

definition spec_with_argv :: "string list \<Rightarrow> spec" where
  "spec_with_argv a = \<lparr>argv = Some a, other_fields = []\<rparr>"

definition finder_entry_point :: "string \<Rightarrow> bool call option \<Rightarrow> keyed_specs \<Rightarrow> entry_point" where
  "finder_entry_point name inst specs =
     \<lparr>ep_name = name,
      ep_load = Returns \<lparr>is_installed = inst, find_specs = Returns (Some specs)\<rparr>\<rparr>"

text \<open>All three sources know \<open>pyls\<close>, two know \<open>r\<close>, only discovery knows \<open>bash\<close>.\<close>

definition precedence_env :: env where
  "precedence_env = blank_env\<lparr>spec_entry_points := Returns
     [finder_entry_point ''python'' None
        [(''pyls'', spec_with_argv [''pyls'']), (''r'', spec_with_argv [''R'']),
         (''bash'', spec_with_argv [''bash-language-server''])]]\<rparr>"

definition precedence_manager :: manager where
  "precedence_manager = blank_manager
     \<lparr>conf_d_language_servers := [(''pyls'', spec_with_argv [''pyls'', ''-v''])],
      language_servers_from_config :=
        [(''pyls'', spec_with_argv [''python'', ''-m'', ''pyls'']),
         (''r'', spec_with_argv [''R'', ''--slave''])]\<rparr>"

text \<open>Discovery finds \<open>py\<close>, the dynamic configuration opts out of it.\<close>

definition opt_out_env :: env where
  "opt_out_env = blank_env\<lparr>spec_entry_points := Returns
     [finder_entry_point ''python'' None [(''py'', spec_with_argv [''pyls''])]]\<rparr>"

definition opt_out_manager :: manager where
  "opt_out_manager = blank_manager\<lparr>conf_d_language_servers := [(''py'', spec_with_argv [])]\<rparr>"

text \<open>The static configuration opts out of \<open>py\<close>, the dynamic one sets it again.\<close>

definition overridden_opt_out_manager :: manager where
  "overridden_opt_out_manager = blank_manager
     \<lparr>conf_d_language_servers := [(''py'', spec_with_argv [''pyls''])],
      language_servers_from_config := [(''py'', spec_with_argv [])]\<rparr>"

text \<open>Two providers yield \<open>pyls\<close>; the second one is not installed.\<close>

definition shadowed_env :: env where
  "shadowed_env = blank_env\<lparr>spec_entry_points := Returns
     [finder_entry_point ''python-language-server'' (Some (Returns True))
        [(''pyls'', spec_with_argv [''python'', ''-m'', ''pyls''])],
      finder_entry_point ''pyls-alternative'' (Some (Returns False))
        [(''pyls'', spec_with_argv [''pyls-alternative''])]]\<rparr>"

text \<open>The same two providers in the other order: the one that is not installed comes first.\<close>

definition shadowed_first_env :: env where
  "shadowed_first_env = blank_env\<lparr>spec_entry_points := Returns
     [finder_entry_point ''pyls-alternative'' (Some (Returns False))
        [(''pyls'', spec_with_argv [''pyls-alternative''])],
      finder_entry_point ''python-language-server'' (Some (Returns True))
        [(''pyls'', spec_with_argv [''python'', ''-m'', ''pyls''])]]\<rparr>"

text \<open>Two providers yield \<open>pyls\<close>; the \<^verbatim>\<open>is_installed\<close> check of the second one raises.\<close>

definition raising_check_env :: env where
  "raising_check_env = blank_env\<lparr>spec_entry_points := Returns
     [finder_entry_point ''python-language-server'' (Some (Returns True))
        [(''pyls'', spec_with_argv [''python'', ''-m'', ''pyls''])],
      finder_entry_point ''pyls-alternative'' (Some Raises)
        [(''pyls'', spec_with_argv [''pyls-alternative''])]]\<rparr>"

text \<open>A session for \<open>pyls\<close> with three subscribers, and listeners under two scopes.\<close>

definition client_handler :: "nat \<Rightarrow> server_key \<Rightarrow> handler" where
  "client_handler n key = \<lparr>handler_id = n, language_server = key\<rparr>"

definition serving_manager :: manager where
  "serving_manager = blank_manager
     \<lparr>sessions := [(''pyls'', 0)],
      heap := (\<lambda>r. blank_session)(0 :=
        \<lparr>session_language_server = ''pyls'', session_spec = spec_with_argv [''pyls''],
         handlers = [client_handler 1 ''pyls'', client_handler 2 ''pyls'',
                     client_handler 3 ''pyls'']\<rparr>),
      next_ref := 1,
      registered := (\<lambda>scope. [])(MessageScope_CLIENT := [''log_client''],
                                   MessageScope_ALL := [''audit''])\<rparr>"

text \<open>The connection of handler 2 is closed: its \<^verbatim>\<open>write_message\<close> raises.\<close>

definition closed_socket_env :: env where
  "closed_socket_env = blank_env
     \<lparr>write_message := (\<lambda>h msg. if handler_id h = 2 then Raises else Returns ())\<rparr>"

text \<open>A dispatch in which the listener \<open>log_client\<close> is invoked and raises.\<close>

definition failing_dispatch ::
  "MessageScope \<Rightarrow> message \<Rightarrow> server_key \<Rightarrow> manager \<Rightarrow> unit call \<times> event list" where
  "failing_dispatch scope msg key m = (Raises, [ListenerInvoked ''log_client'' msg key])"


text \<open>A manager before \<^verbatim>\<open>initialize\<close>: one configured server, one configured listener.\<close>

definition starting_manager :: manager where
  "starting_manager = blank_manager
     \<lparr>language_servers := [(''pyls'', spec_with_argv [''pyls''])],
      autodetect := False,
      client_listeners := [''log_client'']\<rparr>"

section \<open>Facts about dictionaries\<close>

lemma map_of_dict_update:
  "map_of (dict_update d items) = map_of d ++ map_of (rev items)"
proof (induction items arbitrary: d)
  case Nil
  show ?case by (simp add: dict_update_def)
next
  case (Cons kv items)
  obtain k v where kv: "kv = (k, v)" by (cases kv)
  have "map_of (dict_update d (kv # items)) = map_of (dict_update (AList.update k v d) items)"
    by (simp add: dict_update_def kv)
  also have "\<dots> = map_of (AList.update k v d) ++ map_of (rev items)"
    by (rule Cons.IH)
  also have "\<dots> = map_of d ++ map_of (rev (kv # items))"
    by (simp add: kv update_conv' map_add_def fun_eq_iff split: option.splits)
  finally show ?case .
qed

lemma distinct_dict_update:
  "distinct (map fst d) \<Longrightarrow> distinct (map fst (dict_update d items))"
proof (induction items arbitrary: d)
  case Nil
  then show ?case by (simp add: dict_update_def)
next
  case (Cons kv items)
  obtain k v where kv: "kv = (k, v)" by (cases kv)
  have "distinct (map fst (AList.update k v d))"
    using Cons.prems by (rule distinct_update)
  then have "distinct (map fst (dict_update (AList.update k v d) items))"
    by (rule Cons.IH)
  then show ?case by (simp add: dict_update_def kv)
qed

lemma map_of_filter_values:
  "distinct (map fst xs) \<Longrightarrow>
   map_of (filter (\<lambda>(k, v). P v) xs) k =
     (case map_of xs k of None \<Rightarrow> None | Some v \<Rightarrow> if P v then Some v else None)"
proof (induction xs)
  case Nil
  show ?case by simp
next
  case (Cons x xs)
  obtain k' v' where x: "x = (k', v')" by (cases x)
  from Cons.prems have notin: "k' \<notin> fst ` set xs" and dist: "distinct (map fst xs)"
    by (simp_all add: x)
  have none: "map_of xs k' = None"
    using notin by (simp add: map_of_eq_None_iff)
  show ?case
  proof (cases "k = k'")
    case True
    have "map_of (filter (\<lambda>(k, v). P v) xs) k' = None"
      using Cons.IH [OF dist] none True by simp
    then show ?thesis using True by (simp add: x)
  next
    case False
    then show ?thesis using Cons.IH [OF dist] by (simp add: x)
  qed
qed

lemma map_of_rev_distinct:
  "distinct (map fst xs) \<Longrightarrow> map_of (rev xs) = map_of xs"
proof -
  assume d: "distinct (map fst xs)"
  have "distinct (map fst (rev xs))"
    using d by (simp add: rev_map [symmetric])
  then show ?thesis
    using d by (simp add: map_of_inject_set)
qed

section \<open>The merged dictionary\<close>

lemma map_of_merged:
  "map_of (fst (merged_language_servers e m oi)) =
     (if autodetect m then map_of (rev (fst (autodetect_language_servers e oi))) else Map.empty)
       ++ (map_of (rev (language_servers_from_config m)) ++ map_of (rev (conf_d_language_servers m)))"
  by (simp add: merged_language_servers_def Let_def split_beta map_of_dict_update
      map_of_rev_distinct distinct_dict_update)

lemma distinct_merged:
  "distinct (map fst (fst (merged_language_servers e m oi)))"
  by (simp add: merged_language_servers_def Let_def split_beta distinct_dict_update)

lemma map_of_collect:
  "map_of (fst (collect_language_servers e m oi)) k =
     (case map_of (fst (merged_language_servers e m oi)) k of
        None \<Rightarrow> None
      | Some sp \<Rightarrow> if has_argv sp then Some sp else None)"
  using map_of_filter_values [OF distinct_merged, of has_argv e m oi k]
  by (simp add: collect_language_servers_def split_beta)

lemmas resolve_defs =
  init_language_servers_def collect_language_servers_def merged_language_servers_def
  autodetect_language_servers_def loaded_entry_points_def specs_from_entry_point_def
  finder_entry_point_def dict_update_def has_argv_def spec_with_argv_def
  blank_manager_def blank_env_def

text \<open>
  Claim C1. For every key, the dictionary that \<^verbatim>\<open>_collect_language_servers\<close> has
  built before it drops the specs without \<^verbatim>\<open>argv\<close> holds the entry of the dynamic
  (conf.d) configuration when there is one, otherwise the entry of the static
  configuration, otherwise the entry that autodetection yields for the key (the last
  one yielded; none when autodetection is switched off). The two configurations are
  dictionaries, so their keys are distinct.
\<close>

theorem collect_precedence:
  assumes "distinct (map fst (conf_d_language_servers m))"
    and "distinct (map fst (language_servers_from_config m))"
  shows "map_of (fst (merged_language_servers e m only_installed)) k =
    (case map_of (conf_d_language_servers m) k of
       Some dynamic \<Rightarrow> Some dynamic
     | None \<Rightarrow>
        (case map_of (language_servers_from_config m) k of
           Some static \<Rightarrow> Some static
         | None \<Rightarrow>
            (if autodetect m
             then map_of (rev (fst (autodetect_language_servers e only_installed))) k
             else None)))"
  using assms
  by (simp add: map_of_merged map_of_rev_distinct map_add_def split: option.splits)

theorem collect_precedence_witness:
  "distinct (map fst (conf_d_language_servers precedence_manager)) \<and>
   distinct (map fst (language_servers_from_config precedence_manager)) \<and>
   map_of (fst (merged_language_servers precedence_env precedence_manager True)) ''pyls''
     = Some (spec_with_argv [''pyls'', ''-v'']) \<and>
   map_of (fst (merged_language_servers precedence_env precedence_manager True)) ''r''
     = Some (spec_with_argv [''R'', ''--slave'']) \<and>
   map_of (fst (merged_language_servers precedence_env precedence_manager True)) ''bash''
     = Some (spec_with_argv [''bash-language-server''])"
  using collect_precedence [of precedence_manager precedence_env True "''pyls''"]
    collect_precedence [of precedence_manager precedence_env True "''r''"]
    collect_precedence [of precedence_manager precedence_env True "''bash''"]
  by (simp add: precedence_manager_def precedence_env_def blank_manager_def blank_env_def
      autodetect_language_servers_def loaded_entry_points_def specs_from_entry_point_def
      finder_entry_point_def)

section \<open>Opting out with an empty argv\<close>

text \<open>
  Claim C2, as amended. For every key whose entry in the merged dictionary (the entry
  that wins by precedence, whichever source it came from) has an empty or absent
  \<^verbatim>\<open>argv\<close>, the mapping that \<^verbatim>\<open>_collect_language_servers\<close> returns has no
  entry for the key.
\<close>

theorem opt_out_excluded:
  assumes "map_of (fst (merged_language_servers e m only_installed)) k = Some sp"
    and "\<not> has_argv sp"
  shows "map_of (fst (collect_language_servers e m only_installed)) k = None"
  using assms by (simp add: map_of_collect)

theorem opt_out_excluded_witness:
  "map_of (fst (merged_language_servers opt_out_env opt_out_manager True)) ''py''
     = Some (spec_with_argv []) \<and>
   \<not> has_argv (spec_with_argv []) \<and>
   map_of (fst (collect_language_servers opt_out_env opt_out_manager True)) ''py'' = None"
proof -
  have merged: "map_of (fst (merged_language_servers opt_out_env opt_out_manager True)) ''py''
     = Some (spec_with_argv [])"
    by (simp add: opt_out_env_def opt_out_manager_def resolve_defs)
  have empty: "\<not> has_argv (spec_with_argv [])"
    by (simp add: has_argv_def spec_with_argv_def)
  show ?thesis
    using merged empty opt_out_excluded [OF merged empty] by simp
qed

text \<open>
  The claim as it is written fails: a spec with an empty \<^verbatim>\<open>argv\<close> in the static
  configuration does not exclude its key when the dynamic configuration sets the key
  again.
\<close>

theorem opt_out_counterexample:
  "(''py'', spec_with_argv []) \<in> set (language_servers_from_config overridden_opt_out_manager) \<and>
   \<not> has_argv (spec_with_argv []) \<and>
   map_of (fst (collect_language_servers blank_env overridden_opt_out_manager True)) ''py''
     = Some (spec_with_argv [''pyls''])"
  by (simp add: overridden_opt_out_manager_def resolve_defs)

text \<open>
  Every spec of the returned mapping has an \<^verbatim>\<open>argv\<close>, and an opt-out in the dynamic
  configuration, which no other source overrides, always excludes its key.
\<close>

lemma resolved_specs_have_argv:
  "map_of (fst (collect_language_servers e m only_installed)) k = Some sp \<Longrightarrow> has_argv sp"
  by (simp add: map_of_collect split: option.splits if_splits)

lemma dynamic_opt_out_excluded:
  assumes "distinct (map fst (conf_d_language_servers m))"
    and "map_of (conf_d_language_servers m) k = Some sp"
    and "\<not> has_argv sp"
  shows "map_of (fst (collect_language_servers e m only_installed)) k = None"
  using assms
  by (simp add: map_of_collect map_of_merged map_of_rev_distinct map_add_def)

section \<open>The operative mapping and the mapping of all known servers\<close>

lemma specs_from_entry_point_only_installed:
  "fst (specs_from_entry_point errs True ep) =
     (if skipped_when_only_installed ep then []
      else fst (specs_from_entry_point errs False ep))"
  by (simp add: specs_from_entry_point_def skipped_when_only_installed_def Let_def
      split: call.splits option.splits bool.splits)

lemma map_of_rev_concat_snoc:
  "map_of (rev (concat (map f (xs @ [x])))) k =
     (case map_of (rev (f x)) k of
        None \<Rightarrow> map_of (rev (concat (map f xs))) k
      | Some v \<Rightarrow> Some v)"
  by (simp add: map_add_def)

lemma discovered_agree:
  assumes "map_of (rev (concat (map (\<lambda>ep. if skipped ep then [] else f ep) eps))) k = Some sp"
  shows "map_of (rev (concat (map f eps))) k = Some sp \<longleftrightarrow>
         (case List.find (\<lambda>ep. k \<in> set (map fst (f ep))) (rev eps) of
            None \<Rightarrow> True
          | Some ep \<Rightarrow> (if skipped ep then map_of (rev (f ep)) k = Some sp else True))"
  using assms
proof (induction eps rule: rev_induct)
  case Nil
  then show ?case by simp
next
  case (snoc x xs)
  let ?g = "\<lambda>ep. if skipped ep then [] else f ep"
  show ?case
  proof (cases "map_of (rev (f x)) k")
    case None
    then have notin: "k \<notin> set (map fst (f x))"
      by (simp add: map_of_eq_None_iff)
    have "map_of (rev (?g x)) k = None"
      using None by simp
    with snoc.prems have "map_of (rev (concat (map ?g xs))) k = Some sp"
      by (simp only: map_of_rev_concat_snoc option.case)
    note ih = snoc.IH [OF this]
    have found: "List.find (\<lambda>ep. k \<in> set (map fst (f ep))) (rev (xs @ [x])) =
                 List.find (\<lambda>ep. k \<in> set (map fst (f ep))) (rev xs)"
      using notin by simp
    have all: "map_of (rev (concat (map f (xs @ [x])))) k = map_of (rev (concat (map f xs))) k"
      using None by (simp only: map_of_rev_concat_snoc option.case)
    from ih show ?thesis
      by (simp only: found all)
  next
    case (Some v)
    then have isin: "k \<in> set (map fst (f x))"
      using map_of_eq_None_iff [of "rev (f x)" k] by auto
    have all: "map_of (rev (concat (map f (xs @ [x])))) k = Some v"
      using Some by (simp only: map_of_rev_concat_snoc option.case)
    have found: "List.find (\<lambda>ep. k \<in> set (map fst (f ep))) (rev (xs @ [x])) = Some x"
      using isin by simp
    show ?thesis
    proof (cases "skipped x")
      case True
      with all found Some show ?thesis by simp
    next
      case False
      with snoc.prems Some have "v = sp"
        by (simp only: map_of_rev_concat_snoc if_False option.case option.inject)
      with all found False show ?thesis by simp
    qed
  qed
qed

lemma autodetect_agree:
  assumes "map_of (rev (fst (autodetect_language_servers e True))) k = Some sp"
  shows "map_of (rev (fst (autodetect_language_servers e False))) k = Some sp \<longleftrightarrow>
         last_yielder_agrees e k sp"
proof -
  let ?f = "\<lambda>ep. fst (specs_from_entry_point (iter_errors e) False ep)"
  let ?eps = "fst (loaded_entry_points e)"
  have t: "fst (autodetect_language_servers e True) =
        concat (map (\<lambda>ep. if skipped_when_only_installed ep then [] else ?f ep) ?eps)"
    by (simp add: autodetect_language_servers_def split_beta Let_def comp_def
        specs_from_entry_point_only_installed)
  have f: "fst (autodetect_language_servers e False) = concat (map ?f ?eps)"
    by (simp add: autodetect_language_servers_def split_beta Let_def comp_def)
  from assms have "map_of (rev (concat (map
      (\<lambda>ep. if skipped_when_only_installed ep then [] else ?f ep) ?eps))) k = Some sp"
    by (simp only: t)
  from discovered_agree [where f = ?f and skipped = skipped_when_only_installed, OF this]
  show ?thesis
    by (simp only: f last_yielder_agrees_def last_yielder_def)
qed

lemma merged_config_wins:
  assumes "k \<in> fst ` set (language_servers_from_config m) \<union> fst ` set (conf_d_language_servers m)"
  shows "map_of (fst (merged_language_servers e m True)) k =
         map_of (fst (merged_language_servers e m False)) k"
proof -
  have "map_of (rev (language_servers_from_config m)) k \<noteq> None
      \<or> map_of (rev (conf_d_language_servers m)) k \<noteq> None"
    using assms by (auto simp: map_of_eq_None_iff)
  then show ?thesis
    by (auto simp: map_of_merged map_add_def split: option.splits)
qed

lemma merged_ignores_language_servers:
  "merged_language_servers e (m\<lparr>language_servers := ls\<rparr>) oi = merged_language_servers e m oi"
  by (simp add: merged_language_servers_def)

lemma language_servers_init:
  "language_servers (fst (init_language_servers e m)) =
     fst (collect_language_servers e
       (m\<lparr>language_servers_from_config := dict_update [] (language_servers m)\<rparr>) True)"
  by (simp add: init_language_servers_def Let_def split_beta)

lemma all_language_servers_init:
  "all_language_servers (fst (init_language_servers e m)) =
     fst (collect_language_servers e
       (m\<lparr>language_servers_from_config := dict_update [] (language_servers m)\<rparr>) False)"
  by (simp add: init_language_servers_def Let_def split_beta collect_language_servers_def
      merged_ignores_language_servers)

lemma keys_of_dict_copy: "fst ` set (dict_update [] d) = fst ` set d"
proof -
  have "dom (map_of (dict_update [] d)) = dom (map_of (rev d))"
    by (simp add: map_of_dict_update)
  then show ?thesis by (simp add: dom_map_of_conv_image_fst)
qed

text \<open>
  Claim C8, as amended. After \<^verbatim>\<open>init_language_servers\<close>, a key of
  \<^verbatim>\<open>language_servers\<close> is in \<^verbatim>\<open>all_language_servers\<close> with the same spec
  exactly when the configuration (static or dynamic) sets the key, or the last provider
  that yields the key when every provider is asked is not one that the
  \<^verbatim>\<open>is_installed\<close> check leaves out (the check says no, or it raises), or the spec
  which that provider yields for the key is the same one.
\<close>

theorem operative_sub_mapping:
  assumes "map_of (language_servers (fst (init_language_servers e m))) k = Some sp"
  shows "map_of (all_language_servers (fst (init_language_servers e m))) k = Some sp \<longleftrightarrow>
         (k \<in> fst ` set (language_servers m) \<union> fst ` set (conf_d_language_servers m)
          \<or> last_yielder_agrees e k sp)"
proof -
  let ?m1 = "m\<lparr>language_servers_from_config := dict_update [] (language_servers m)\<rparr>"
  let ?T = "map_of (fst (merged_language_servers e ?m1 True)) k"
  let ?F = "map_of (fst (merged_language_servers e ?m1 False)) k"
  from assms have T: "?T = Some sp" and argv: "has_argv sp"
    by (auto simp: language_servers_init map_of_collect split: option.splits if_splits)
  have all: "map_of (all_language_servers (fst (init_language_servers e m))) k = Some sp
               \<longleftrightarrow> ?F = Some sp"
    using argv by (auto simp: all_language_servers_init map_of_collect split: option.splits)
  show ?thesis
  proof (cases "k \<in> fst ` set (language_servers m) \<union> fst ` set (conf_d_language_servers m)")
    case True
    then have "k \<in> fst ` set (language_servers_from_config ?m1)
                 \<union> fst ` set (conf_d_language_servers ?m1)"
      by (simp add: keys_of_dict_copy)
    then have "?T = ?F" by (rule merged_config_wins)
    with T all True show ?thesis by simp
  next
    case False
    then have none: "map_of (rev (language_servers_from_config ?m1)) k = None"
        "map_of (rev (conf_d_language_servers ?m1)) k = None"
      by (simp_all add: map_of_eq_None_iff keys_of_dict_copy)
    have T': "?T = (if autodetect m
                   then map_of (rev (fst (autodetect_language_servers e True))) k else None)"
      using none by (simp add: map_of_merged map_add_def)
    have F': "?F = (if autodetect m
                   then map_of (rev (fst (autodetect_language_servers e False))) k else None)"
      using none by (simp add: map_of_merged map_add_def)
    from T T' have auto: "autodetect m"
      and dT: "map_of (rev (fst (autodetect_language_servers e True))) k = Some sp"
      by (simp_all split: if_splits)
    from autodetect_agree [OF dT] all F' auto False show ?thesis by simp
  qed
qed

theorem operative_sub_mapping_witness:
  "map_of (language_servers (fst (init_language_servers shadowed_first_env blank_manager))) ''pyls''
     = Some (spec_with_argv [''python'', ''-m'', ''pyls'']) \<and>
   last_yielder_agrees shadowed_first_env ''pyls'' (spec_with_argv [''python'', ''-m'', ''pyls'']) \<and>
   map_of (all_language_servers (fst (init_language_servers shadowed_first_env blank_manager))) ''pyls''
     = Some (spec_with_argv [''python'', ''-m'', ''pyls''])"
proof -
  have operative:
    "map_of (language_servers (fst (init_language_servers shadowed_first_env blank_manager))) ''pyls''
       = Some (spec_with_argv [''python'', ''-m'', ''pyls''])"
    by (simp add: shadowed_first_env_def resolve_defs)
  have agrees:
    "last_yielder_agrees shadowed_first_env ''pyls'' (spec_with_argv [''python'', ''-m'', ''pyls''])"
    by (simp add: last_yielder_agrees_def last_yielder_def skipped_when_only_installed_def
        shadowed_first_env_def loaded_entry_points_def specs_from_entry_point_def
        finder_entry_point_def blank_env_def)
  show ?thesis
    using operative agrees operative_sub_mapping [OF operative] by simp
qed

text \<open>
  The claim as it is written fails: when a provider that is not installed yields a key
  after an installed provider has yielded it, the two mappings hold different specs for
  the key.
\<close>

theorem operative_sub_mapping_counterexample:
  "map_of (language_servers (fst (init_language_servers shadowed_env blank_manager))) ''pyls''
     = Some (spec_with_argv [''python'', ''-m'', ''pyls'']) \<and>
   map_of (all_language_servers (fst (init_language_servers shadowed_env blank_manager))) ''pyls''
     = Some (spec_with_argv [''pyls-alternative''])"
  by (simp add: shadowed_env_def resolve_defs)

text \<open>
  A provider whose \<^verbatim>\<open>is_installed\<close> check raises is left out in the same way, with
  the same effect.
\<close>

lemma raising_check_is_left_out:
  "map_of (language_servers (fst (init_language_servers raising_check_env blank_manager))) ''pyls''
     = Some (spec_with_argv [''python'', ''-m'', ''pyls'']) \<and>
   map_of (all_language_servers (fst (init_language_servers raising_check_env blank_manager))) ''pyls''
     = Some (spec_with_argv [''pyls-alternative''])"
  by (simp add: raising_check_env_def resolve_defs)

section \<open>Subscribing and unsubscribing\<close>

lemmas serving_defs =
  serving_manager_def client_handler_def blank_manager_def blank_session_def
  spec_with_argv_def

lemma filter_insert_same:
  "filter (\<lambda>h'. h' \<noteq> h) (List.insert h hs) = filter (\<lambda>h'. h' \<noteq> h) hs"
  by (simp add: List.insert_def)

lemma subscribe_then_unsubscribe:
  "map_of (sessions m) (language_server h) = Some r \<Longrightarrow>
   fst (snd (unsubscribe h (fst (snd (subscribe h m))))) =
     m\<lparr>heap := (heap m)(r :=
        (heap m r)\<lparr>handlers := filter (\<lambda>h'. h' \<noteq> h) (handlers (heap m r))\<rparr>)\<rparr>"
  by (simp add: subscribe_def unsubscribe_def List.union_def filter_insert_same)

text \<open>
  Claim C5, as amended. For every handler whose key has a live session,
  \<^verbatim>\<open>subscribe\<close> followed by \<^verbatim>\<open>unsubscribe\<close> leaves the session with its
  former subscriber set without the handler: when the handler was not subscribed
  before, the manager is back in the state it had before \<^verbatim>\<open>subscribe\<close>; when it
  was, it is no longer subscribed.
\<close>

theorem subscribe_unsubscribe:
  assumes "map_of (sessions m) (language_server h) = Some r"
  shows "set (handlers (heap (fst (snd (unsubscribe h (fst (snd (subscribe h m)))))) r))
           = set (handlers (heap m r)) - {h}
       \<and> (h \<notin> set (handlers (heap m r)) \<longrightarrow>
            fst (snd (unsubscribe h (fst (snd (subscribe h m))))) = m)"
proof -
  have "fst (snd (unsubscribe h (fst (snd (subscribe h m))))) = m"
    if "h \<notin> set (handlers (heap m r))"
  proof -
    from that have "filter (\<lambda>h'. h' \<noteq> h) (handlers (heap m r)) = handlers (heap m r)"
      by (auto intro: filter_True)
    then show ?thesis
      by (simp add: subscribe_then_unsubscribe [OF assms])
  qed
  moreover have "set (handlers (heap (fst (snd (unsubscribe h (fst (snd (subscribe h m)))))) r))
           = set (handlers (heap m r)) - {h}"
    by (auto simp: subscribe_then_unsubscribe [OF assms])
  ultimately show ?thesis by simp
qed

theorem subscribe_unsubscribe_witness:
  "map_of (sessions serving_manager) (language_server (client_handler 4 ''pyls'')) = Some 0 \<and>
   client_handler 4 ''pyls'' \<notin> set (handlers (heap serving_manager 0)) \<and>
   fst (snd (unsubscribe (client_handler 4 ''pyls'')
         (fst (snd (subscribe (client_handler 4 ''pyls'') serving_manager))))) = serving_manager"
proof -
  have live: "map_of (sessions serving_manager) (language_server (client_handler 4 ''pyls'')) = Some 0"
    by (simp add: serving_defs)
  have new: "client_handler 4 ''pyls'' \<notin> set (handlers (heap serving_manager 0))"
    by (simp add: serving_defs)
  show ?thesis
    using live new subscribe_unsubscribe [OF live] by simp
qed

text \<open>
  The claim as it is written fails for a subscriber set that already contains the
  handler: the handler is in the set before, and it is not in it afterwards.
\<close>

theorem subscribe_unsubscribe_counterexample:
  "map_of (sessions serving_manager) (language_server (client_handler 1 ''pyls'')) = Some 0 \<and>
   client_handler 1 ''pyls'' \<in> set (handlers (heap serving_manager 0)) \<and>
   client_handler 1 ''pyls'' \<notin> set (handlers (heap
       (fst (snd (unsubscribe (client_handler 1 ''pyls'')
         (fst (snd (subscribe (client_handler 1 ''pyls'') serving_manager)))))) 0))"
  by (simp add: serving_defs subscribe_def unsubscribe_def List.union_def List.insert_def)

section \<open>Operations on a key without a session\<close>

lemma no_write_in_wait_for_listeners:
  "SessionWrite r msg' \<notin> set (wait_for_listeners scope msg key m)"
  by (auto simp: wait_for_listeners_def)

lemma listener_events_in_wait_for_listeners:
  "l \<in> set (registered m scope @ registered m MessageScope_ALL) \<Longrightarrow>
   ListenerInvoked l msg key \<in> set (wait_for_listeners scope msg key m) \<and>
   ListenerCompleted l msg key \<in> set (wait_for_listeners scope msg key m)"
  by (auto simp: wait_for_listeners_def)

text \<open>
  Claim C7, as amended. For a handler whose key has no live session,
  \<^verbatim>\<open>subscribe\<close> and \<^verbatim>\<open>unsubscribe\<close> log one error, return the manager as it
  was (the sessions mapping and the subscriber set of every session included) and do
  not raise. \<^verbatim>\<open>on_client_message\<close> returns the manager as it was too, whatever the
  dispatch to the listeners does. When the dispatch returns, it logs the error after
  what the dispatch did and nothing else, so it writes to no session, and it does not
  raise; when the dispatch raises, \<^verbatim>\<open>on_client_message\<close> raises and has logged
  nothing.
\<close>

theorem no_session_is_no_op:
  assumes "map_of (sessions m) (language_server h) = None"
  shows "subscribe h m =
           (Returns (), m,
            [Log ERROR (''['' @ language_server h @ ''] no session: handler subscription failed'')])
       \<and> unsubscribe h m =
           (Returns (), m,
            [Log ERROR (''['' @ language_server h @ ''] no session: handler unsubscription failed'')])
       \<and> fst (snd (on_client_message_with dispatch msg h m)) = m
       \<and> (fst (dispatch MessageScope_CLIENT msg (language_server h) m) = Returns () \<longrightarrow>
            fst (on_client_message_with dispatch msg h m) = Returns ()
          \<and> snd (snd (on_client_message_with dispatch msg h m)) =
              snd (dispatch MessageScope_CLIENT msg (language_server h) m)
              @ [Log ERROR (''['' @ language_server h @ ''] no session: client message dropped'')])
       \<and> (fst (dispatch MessageScope_CLIENT msg (language_server h) m) = Raises \<longrightarrow>
            fst (on_client_message_with dispatch msg h m) = Raises
          \<and> snd (snd (on_client_message_with dispatch msg h m)) =
              snd (dispatch MessageScope_CLIENT msg (language_server h) m))"
  using assms
  by (cases "dispatch MessageScope_CLIENT msg (language_server h) m")
     (auto simp: subscribe_def unsubscribe_def on_client_message_with_def split: call.splits)

theorem no_session_is_no_op_witness:
  "map_of (sessions serving_manager) (language_server (client_handler 5 ''r'')) = None \<and>
   fst (dispatch_to_completion MessageScope_CLIENT ''{}'' ''r'' serving_manager) = Returns () \<and>
   subscribe (client_handler 5 ''r'') serving_manager =
     (Returns (), serving_manager, [Log ERROR ''[r] no session: handler subscription failed'']) \<and>
   unsubscribe (client_handler 5 ''r'') serving_manager =
     (Returns (), serving_manager, [Log ERROR ''[r] no session: handler unsubscription failed'']) \<and>
   on_client_message_with dispatch_to_completion ''{}'' (client_handler 5 ''r'') serving_manager =
     (Returns (), serving_manager,
      [ListenerInvoked ''log_client'' ''{}'' ''r'', ListenerCompleted ''log_client'' ''{}'' ''r'',
       ListenerInvoked ''audit'' ''{}'' ''r'', ListenerCompleted ''audit'' ''{}'' ''r'',
       Log ERROR ''[r] no session: client message dropped''])"
proof -
  have gone: "map_of (sessions serving_manager) (language_server (client_handler 5 ''r'')) = None"
    by (simp add: serving_defs)
  have key: "language_server (client_handler 5 ''r'') = ''r''"
    by (simp add: client_handler_def)
  have returns:
    "fst (dispatch_to_completion MessageScope_CLIENT ''{}'' ''r'' serving_manager) = Returns ()"
    by (simp add: dispatch_to_completion_def)
  have events: "snd (dispatch_to_completion MessageScope_CLIENT ''{}'' ''r'' serving_manager) =
      [ListenerInvoked ''log_client'' ''{}'' ''r'', ListenerCompleted ''log_client'' ''{}'' ''r'',
       ListenerInvoked ''audit'' ''{}'' ''r'', ListenerCompleted ''audit'' ''{}'' ''r'']"
    by (simp add: dispatch_to_completion_def wait_for_listeners_def serving_defs)
  show ?thesis
    using gone returns events
      no_session_is_no_op [OF gone, of dispatch_to_completion "''{}''"]
    by (simp add: key prod_eq_iff)
qed

text \<open>
  The claim as it is written fails for \<^verbatim>\<open>on_client_message\<close>: when a listener
  raises, the call raises, and the dropped message is not logged.
\<close>

theorem no_session_raises_counterexample:
  "map_of (sessions serving_manager) (language_server (client_handler 5 ''r'')) = None \<and>
   on_client_message_with failing_dispatch ''{}'' (client_handler 5 ''r'') serving_manager =
     (Raises, serving_manager, [ListenerInvoked ''log_client'' ''{}'' ''r''])"
  by (simp add: on_client_message_with_def failing_dispatch_def serving_defs)

section \<open>Client messages: listeners first, then the session\<close>

lemma on_client_message_events:
  "snd (on_client_message msg h m) =
     wait_for_listeners MessageScope_CLIENT msg (language_server h) m @
       [case map_of (sessions m) (language_server h) of
          None \<Rightarrow> Log ERROR (''['' @ language_server h @ ''] no session: client message dropped'')
        | Some r \<Rightarrow> SessionWrite r msg]"
  by (simp add: on_client_message_def on_client_message_with_def dispatch_to_completion_def
      split: option.splits)

lemma write_is_last:
  assumes "ws @ [x] = pre @ SessionWrite r msg' # post"
    and "SessionWrite r msg' \<notin> set ws"
  shows "pre = ws \<and> post = [] \<and> x = SessionWrite r msg'"
proof (cases post rule: rev_cases)
  case Nil
  with assms(1) show ?thesis by simp
next
  case (snoc post' y)
  with assms(1) have "ws = pre @ SessionWrite r msg' # post'" by simp
  with assms(2) show ?thesis by simp
qed

text \<open>
  Claim C3. For every client message and every listener registered under the
  \<open>CLIENT\<close> or the \<open>ALL\<close> scope: wherever \<^verbatim>\<open>on_client_message\<close> writes to a
  session, the invocation of the listener for this message has been started and has
  completed before; the write is for this message and it is the last thing that
  happens.
\<close>

theorem listeners_complete_before_write:
  assumes "l \<in> set (registered m MessageScope_CLIENT @ registered m MessageScope_ALL)"
    and "snd (on_client_message msg h m) = pre @ SessionWrite r msg' # post"
  shows "ListenerInvoked l msg (language_server h) \<in> set pre
       \<and> ListenerCompleted l msg (language_server h) \<in> set pre
       \<and> msg' = msg \<and> post = []"
proof -
  let ?ws = "wait_for_listeners MessageScope_CLIENT msg (language_server h) m"
  let ?x = "case map_of (sessions m) (language_server h) of
          None \<Rightarrow> Log ERROR (''['' @ language_server h @ ''] no session: client message dropped'')
        | Some r \<Rightarrow> SessionWrite r msg"
  have eq: "?ws @ [?x] = pre @ SessionWrite r msg' # post"
    using assms(2) by (simp add: on_client_message_events)
  have last: "pre = ?ws \<and> post = [] \<and> ?x = SessionWrite r msg'"
    using eq by (rule write_is_last) (rule no_write_in_wait_for_listeners)
  then have "msg' = msg" by (simp split: option.splits)
  with last listener_events_in_wait_for_listeners [OF assms(1)] show ?thesis by simp
qed

theorem listeners_complete_before_write_witness:
  "''log_client'' \<in> set (registered serving_manager MessageScope_CLIENT
      @ registered serving_manager MessageScope_ALL) \<and>
   snd (on_client_message ''{}'' (client_handler 1 ''pyls'') serving_manager) =
     [ListenerInvoked ''log_client'' ''{}'' ''pyls'', ListenerCompleted ''log_client'' ''{}'' ''pyls'',
      ListenerInvoked ''audit'' ''{}'' ''pyls'', ListenerCompleted ''audit'' ''{}'' ''pyls'']
     @ SessionWrite 0 ''{}'' # [] \<and>
   ListenerCompleted ''log_client'' ''{}'' (language_server (client_handler 1 ''pyls''))
     \<in> set [ListenerInvoked ''log_client'' ''{}'' ''pyls'', ListenerCompleted ''log_client'' ''{}'' ''pyls'',
      ListenerInvoked ''audit'' ''{}'' ''pyls'', ListenerCompleted ''audit'' ''{}'' ''pyls'']"
proof -
  have reg: "''log_client'' \<in> set (registered serving_manager MessageScope_CLIENT
      @ registered serving_manager MessageScope_ALL)"
    by (simp add: serving_defs)
  have run: "snd (on_client_message ''{}'' (client_handler 1 ''pyls'') serving_manager) =
     [ListenerInvoked ''log_client'' ''{}'' ''pyls'', ListenerCompleted ''log_client'' ''{}'' ''pyls'',
      ListenerInvoked ''audit'' ''{}'' ''pyls'', ListenerCompleted ''audit'' ''{}'' ''pyls'']
     @ SessionWrite 0 ''{}'' # []"
    by (simp add: on_client_message_events wait_for_listeners_def serving_defs)
  show ?thesis
    using reg run listeners_complete_before_write [OF reg run] by blast
qed

text \<open>
  On every call, whatever the dispatch does and whether there is a session or not, what
  the dispatch did comes first; the session is looked up, and the message written or
  the drop logged, only when the dispatch has returned.
\<close>

lemma dispatch_comes_first:
  "snd (snd (on_client_message_with dispatch msg h m)) =
     snd (dispatch MessageScope_CLIENT msg (language_server h) m) @
       (case fst (dispatch MessageScope_CLIENT msg (language_server h) m) of
          Raises \<Rightarrow> []
        | Returns u \<Rightarrow>
            [case map_of (sessions m) (language_server h) of
               None \<Rightarrow>
                 Log ERROR (''['' @ language_server h @ ''] no session: client message dropped'')
             | Some r \<Rightarrow> SessionWrite r msg])"
  by (cases "dispatch MessageScope_CLIENT msg (language_server h) m")
     (simp add: on_client_message_with_def split: call.splits option.splits)

text \<open>
  Claim C10. On every call of \<^verbatim>\<open>on_client_message\<close>, with a live session for the
  key of the handler or without one, the message is dispatched to every listener of the
  \<open>CLIENT\<close> and the \<open>ALL\<close> scope and the dispatch is awaited: the listener is
  invoked and completes, and only then the session is looked up; what follows is the
  last event, the write to the session or, when there is none, the logged drop of the
  message that the listener has seen. And whatever the dispatch does, what it did comes
  first on every call, and the lookup follows only when it has returned.
\<close>

theorem listeners_see_dropped_messages:
  assumes "l \<in> set (registered m MessageScope_CLIENT @ registered m MessageScope_ALL)"
  shows "(\<exists>pre. snd (on_client_message msg h m) =
             pre @ [case map_of (sessions m) (language_server h) of
                      None \<Rightarrow>
                        Log ERROR
                          (''['' @ language_server h @ ''] no session: client message dropped'')
                    | Some r \<Rightarrow> SessionWrite r msg]
           \<and> ListenerInvoked l msg (language_server h) \<in> set pre
           \<and> ListenerCompleted l msg (language_server h) \<in> set pre)
       \<and> snd (snd (on_client_message_with dispatch msg h m)) =
           snd (dispatch MessageScope_CLIENT msg (language_server h) m) @
             (case fst (dispatch MessageScope_CLIENT msg (language_server h) m) of
                Raises \<Rightarrow> []
              | Returns u \<Rightarrow>
                  [case map_of (sessions m) (language_server h) of
                     None \<Rightarrow>
                       Log ERROR
                         (''['' @ language_server h @ ''] no session: client message dropped'')
                   | Some r \<Rightarrow> SessionWrite r msg])"
  using listener_events_in_wait_for_listeners [OF assms]
  by (simp add: on_client_message_events dispatch_comes_first)

theorem listeners_see_dropped_messages_witness:
  "''audit'' \<in> set (registered serving_manager MessageScope_CLIENT
      @ registered serving_manager MessageScope_ALL) \<and>
   (\<exists>pre. snd (on_client_message ''{}'' (client_handler 5 ''r'') serving_manager) =
             pre @ [Log ERROR ''[r] no session: client message dropped'']
           \<and> ListenerInvoked ''audit'' ''{}'' ''r'' \<in> set pre
           \<and> ListenerCompleted ''audit'' ''{}'' ''r'' \<in> set pre) \<and>
   (\<exists>pre. snd (on_client_message ''{}'' (client_handler 1 ''pyls'') serving_manager) =
             pre @ [SessionWrite 0 ''{}'']
           \<and> ListenerInvoked ''audit'' ''{}'' ''pyls'' \<in> set pre
           \<and> ListenerCompleted ''audit'' ''{}'' ''pyls'' \<in> set pre)"
proof -
  have reg: "''audit'' \<in> set (registered serving_manager MessageScope_CLIENT
      @ registered serving_manager MessageScope_ALL)"
    by (simp add: serving_defs)
  have gone: "map_of (sessions serving_manager) ''r'' = None"
    and live: "map_of (sessions serving_manager) ''pyls'' = Some 0"
    by (simp_all add: serving_defs)
  have dropped: "\<exists>pre. snd (on_client_message ''{}'' (client_handler 5 ''r'') serving_manager) =
             pre @ [Log ERROR ''[r] no session: client message dropped'']
           \<and> ListenerInvoked ''audit'' ''{}'' ''r'' \<in> set pre
           \<and> ListenerCompleted ''audit'' ''{}'' ''r'' \<in> set pre"
    using listeners_see_dropped_messages
      [OF reg, where msg = "''{}''" and h = "client_handler 5 ''r''"]
    by (simp add: gone client_handler_def)
  have written: "\<exists>pre. snd (on_client_message ''{}'' (client_handler 1 ''pyls'') serving_manager) =
             pre @ [SessionWrite 0 ''{}'']
           \<and> ListenerInvoked ''audit'' ''{}'' ''pyls'' \<in> set pre
           \<and> ListenerCompleted ''audit'' ''{}'' ''pyls'' \<in> set pre"
    using listeners_see_dropped_messages
      [OF reg, where msg = "''{}''" and h = "client_handler 1 ''pyls''"]
    by (simp add: live client_handler_def)
  show ?thesis
    using reg dropped written by simp
qed

section \<open>Server messages: the broadcast\<close>

lemma broadcast_until_failure:
  assumes "\<forall>h'\<in>set before. wm h' msg = Returns ()"
    and "wm h msg = Raises"
  shows "broadcast wm msg (before @ h # after) =
           (Raises, map (\<lambda>h'. HandlerWriteMessage h' msg) before)"
  using assms by (induction before) simp_all


lemma no_delivery_in_wait_for_listeners:
  "HandlerWriteMessage h msg' \<notin> set (wait_for_listeners scope msg key m)"
  by (auto simp: wait_for_listeners_def)

text \<open>
  Claim C4, as amended. When \<^verbatim>\<open>write_message\<close> of a subscribed handler raises
  during the broadcast of \<^verbatim>\<open>on_server_message\<close>, the broadcast ends there: the
  handlers iterated before it have received the message, no other handler receives
  it, and \<^verbatim>\<open>on_server_message\<close> raises.
\<close>

theorem broadcast_stops_at_failure:
  assumes "handlers (heap m sess) = before @ h # after"
    and "\<forall>h'\<in>set before. write_message e h' msg = Returns ()"
    and "write_message e h msg = Raises"
  shows "fst (on_server_message e msg sess m) = Raises
       \<and> (\<forall>h'. HandlerWriteMessage h' msg \<in> set (snd (on_server_message e msg sess m))
               \<longleftrightarrow> h' \<in> set before)"
proof -
  have "broadcast (write_message e) msg (before @ h # after) =
          (Raises, map (\<lambda>h'. HandlerWriteMessage h' msg) before)"
    using assms(2,3) by (rule broadcast_until_failure)
  then show ?thesis
    by (auto simp: on_server_message_def Let_def assms(1) no_delivery_in_wait_for_listeners)
qed

theorem broadcast_stops_at_failure_witness:
  "handlers (heap serving_manager 0) =
     [client_handler 1 ''pyls''] @ client_handler 2 ''pyls'' # [client_handler 3 ''pyls''] \<and>
   write_message closed_socket_env (client_handler 1 ''pyls'') ''{}'' = Returns () \<and>
   write_message closed_socket_env (client_handler 2 ''pyls'') ''{}'' = Raises \<and>
   fst (on_server_message closed_socket_env ''{}'' 0 serving_manager) = Raises \<and>
   HandlerWriteMessage (client_handler 1 ''pyls'') ''{}''
     \<in> set (snd (on_server_message closed_socket_env ''{}'' 0 serving_manager))"
proof -
  have hs: "handlers (heap serving_manager 0) =
     [client_handler 1 ''pyls''] @ client_handler 2 ''pyls'' # [client_handler 3 ''pyls'']"
    by (simp add: serving_defs)
  have ok: "\<forall>h'\<in>set [client_handler 1 ''pyls'']. write_message closed_socket_env h' ''{}'' = Returns ()"
    by (simp add: closed_socket_env_def blank_env_def client_handler_def)
  have closed: "write_message closed_socket_env (client_handler 2 ''pyls'') ''{}'' = Raises"
    by (simp add: closed_socket_env_def blank_env_def client_handler_def)
  show ?thesis
    using hs ok closed broadcast_stops_at_failure [OF hs ok closed] by simp
qed


text \<open>
  The claim as it is written fails: handler 2 raises, and handler 3, which is subscribed
  and would not raise, does not receive the message.
\<close>

theorem failure_isolation_counterexample:
  "client_handler 3 ''pyls'' \<in> set (handlers (heap serving_manager 0)) \<and>
   write_message closed_socket_env (client_handler 3 ''pyls'') ''{}'' = Returns () \<and>
   write_message closed_socket_env (client_handler 2 ''pyls'') ''{}'' = Raises \<and>
   HandlerWriteMessage (client_handler 3 ''pyls'') ''{}''
     \<notin> set (snd (on_server_message closed_socket_env ''{}'' 0 serving_manager))"
  by (simp add: on_server_message_def wait_for_listeners_def closed_socket_env_def blank_env_def
      serving_defs)



section \<open>The broadcast while handlers are unsubscribed\<close>






section \<open>The order of initialization\<close>

lemma specs_from_entry_point_logs:
  "\<forall>ev\<in>set (snd (specs_from_entry_point errs oi ep)). is_log ev"
  by (simp add: specs_from_entry_point_def Let_def split: call.splits option.splits bool.splits)

lemma autodetect_logs:
  "\<forall>ev\<in>set (snd (autodetect_language_servers e oi)). is_log ev"
  by (auto simp: autodetect_language_servers_def loaded_entry_points_def Let_def split_beta
      specs_from_entry_point_logs split: call.splits)

lemma collect_logs:
  "\<forall>ev\<in>set (snd (collect_language_servers e m oi)). is_log ev"
  using autodetect_logs [of e oi]
  by (simp add: collect_language_servers_def merged_language_servers_def Let_def split_beta)

lemma init_language_servers_logs:
  "\<forall>ev\<in>set (snd (init_language_servers e m)). is_log ev"
  using collect_logs
  by (auto simp: init_language_servers_def Let_def split_beta)

lemma load_listener_entry_points_logs:
  "\<forall>ev\<in>set (snd (load_listener_entry_points eps ls)). is_log ev"
  by (induction eps ls rule: load_listener_entry_points.induct)
     (auto simp: split_beta split: call.splits)

lemma register_listeners_eq:
  "register_listeners scope ls m =
     (m\<lparr>registered := (registered m)(scope := registered m scope @ ls)\<rparr>,
      map (ListenerRegistered scope) ls)"
  by (induction ls arbitrary: m) (simp_all add: register_message_listener_def)

lemma filter_logs:
  "\<forall>ev\<in>set evs. is_log ev \<Longrightarrow> filter is_listener_registered evs = []"
  by (induction evs) (auto elim: is_log.elims)

lemma logs_not_session_created:
  "is_log ev \<Longrightarrow> \<not> is_session_created ev"
  by (cases ev) simp_all

lemma init_listeners_scope_returns:
  assumes "init_listeners_scope e scope m = (Returns (), m2, evs)"
  shows "filter is_listener_registered evs = map (ListenerRegistered scope) (get_listeners scope m2)
       \<and> (\<forall>ev\<in>set evs. \<not> is_session_created ev)
       \<and> (\<forall>scope'. scope' \<noteq> scope \<longrightarrow> get_listeners scope' m2 = get_listeners scope' m)
       \<and> language_servers m2 = language_servers m \<and> next_ref m2 = next_ref m
       \<and> heap m2 = heap m \<and> sessions m2 = sessions m"
proof (cases "listener_entry_points e scope")
  case Raises
  with assms show ?thesis by (simp add: init_listeners_scope_def)
next
  case (Returns eps)
  let ?l = "load_listener_entry_points eps (get_listeners scope m)"
  have logs: "\<forall>ev\<in>set (snd ?l). is_log ev" by (rule load_listener_entry_points_logs)
  have m2: "m2 = (set_listeners scope (fst ?l) m)\<lparr>registered :=
      (registered (set_listeners scope (fst ?l) m))(scope :=
         registered (set_listeners scope (fst ?l) m) scope @ fst ?l)\<rparr>"
    and evs: "evs = snd ?l @ map (ListenerRegistered scope) (fst ?l)"
    using assms Returns
    by (simp_all add: init_listeners_scope_def Let_def split_beta register_listeners_eq)
  have "filter is_listener_registered evs = map (ListenerRegistered scope) (fst ?l)"
    by (simp add: evs filter_logs [OF logs] filter_id_conv)
  moreover have "get_listeners scope m2 = fst ?l"
    by (cases scope) (simp_all add: m2 get_listeners_def set_listeners_def)
  moreover have "\<forall>ev\<in>set evs. \<not> is_session_created ev"
    using logs by (auto simp: evs logs_not_session_created)
  moreover have "\<forall>scope'. scope' \<noteq> scope \<longrightarrow> get_listeners scope' m2 = get_listeners scope' m"
    by (cases scope) (auto simp: m2 get_listeners_def set_listeners_def split: MessageScope.splits)
  moreover have "language_servers m2 = language_servers m \<and> next_ref m2 = next_ref m
       \<and> heap m2 = heap m \<and> sessions m2 = sessions m"
    by (cases scope) (simp_all add: m2 set_listeners_def)
  ultimately show ?thesis by simp
qed

lemma init_listeners_scopes_step:
  assumes "init_listeners_scopes e (scope # scopes) m = (Returns (), m', evs)"
  shows "\<exists>m1 evs1 evs2. init_listeners_scope e scope m = (Returns (), m1, evs1)
           \<and> init_listeners_scopes e scopes m1 = (Returns (), m', evs2) \<and> evs = evs1 @ evs2"
proof -
  obtain r1 m1 evs1 where s1: "init_listeners_scope e scope m = (r1, m1, evs1)"
    by (cases "init_listeners_scope e scope m") auto
  obtain r2 m2 evs2 where s2: "init_listeners_scopes e scopes m1 = (r2, m2, evs2)"
    by (cases "init_listeners_scopes e scopes m1") auto
  from assms s1 s2 show ?thesis
    by (cases r1) (auto simp: Let_def)
qed

lemma init_listeners_scopes_returns:
  assumes "init_listeners_scopes e scopes m = (Returns (), m', evs)"
    and "distinct scopes"
  shows "filter is_listener_registered evs =
           concat (map (\<lambda>scope. map (ListenerRegistered scope) (get_listeners scope m')) scopes)
       \<and> (\<forall>ev\<in>set evs. \<not> is_session_created ev)
       \<and> (\<forall>scope'. scope' \<notin> set scopes \<longrightarrow> get_listeners scope' m' = get_listeners scope' m)
       \<and> language_servers m' = language_servers m \<and> next_ref m' = next_ref m
       \<and> heap m' = heap m \<and> sessions m' = sessions m"
  using assms
proof (induction scopes arbitrary: m evs)
  case Nil
  then show ?case by simp
next
  case (Cons scope scopes)
  from init_listeners_scopes_step [OF Cons.prems(1)]
  obtain m1 evs1 evs2 where
    s1: "init_listeners_scope e scope m = (Returns (), m1, evs1)" and
    s2: "init_listeners_scopes e scopes m1 = (Returns (), m', evs2)" and
    evs: "evs = evs1 @ evs2"
    by blast
  note f1 = init_listeners_scope_returns [OF s1]
  from Cons.prems(2) have d: "distinct scopes" and fresh: "scope \<notin> set scopes" by simp_all
  note f2 = Cons.IH [OF s2 d]
  have same: "get_listeners scope m' = get_listeners scope m1"
    using f2 fresh by blast
  have "filter is_listener_registered evs =
          map (ListenerRegistered scope) (get_listeners scope m')
          @ concat (map (\<lambda>scope. map (ListenerRegistered scope) (get_listeners scope m')) scopes)"
    using f1 f2 by (simp add: evs same)
  moreover have "\<forall>ev\<in>set evs. \<not> is_session_created ev"
    using f1 f2 by (auto simp: evs)
  moreover have "\<forall>scope'. scope' \<notin> set (scope # scopes) \<longrightarrow>
      get_listeners scope' m' = get_listeners scope' m"
    using f1 f2 by auto
  moreover have "language_servers m' = language_servers m \<and> next_ref m' = next_ref m
       \<and> heap m' = heap m \<and> sessions m' = sessions m"
    using f1 f2 by simp
  ultimately show ?case by simp
qed

lemma init_listeners_returns:
  assumes "init_listeners e m = (Returns (), m', evs)"
  shows "filter is_listener_registered evs =
           map (ListenerRegistered MessageScope_ALL) (all_listeners m')
           @ map (ListenerRegistered MessageScope_CLIENT) (client_listeners m')
           @ map (ListenerRegistered MessageScope_SERVER) (server_listeners m')
       \<and> (\<forall>ev\<in>set evs. \<not> is_session_created ev)
       \<and> language_servers m' = language_servers m \<and> next_ref m' = next_ref m"
  using init_listeners_scopes_returns
    [of e "[MessageScope_ALL, MessageScope_CLIENT, MessageScope_SERVER]" m m' evs] assms
  by (simp add: init_listeners_def get_listeners_def)

lemma update_fresh:
  "k \<notin> fst ` set al \<Longrightarrow> AList.update k v al = al @ [(k, v)]"
  by (induction al) auto

lemma build_sessions_distinct:
  assumes "distinct (map fst specs)"
    and "fst ` set acc \<inter> fst ` set specs = {}"
  shows "fst (build_sessions specs acc m) =
           acc @ zip (map fst specs) [next_ref m ..< next_ref m + length specs]
       \<and> snd (snd (build_sessions specs acc m)) =
           map (\<lambda>(key, r). SessionCreated key r)
             (zip (map fst specs) [next_ref m ..< next_ref m + length specs])"
  using assms
proof (induction specs acc m rule: build_sessions.induct)
  case (1 acc m)
  show ?case by simp
next
  case (2 key sp rest acc m)
  let ?r = "next_ref m"
  let ?m1 = "m\<lparr>heap := (heap m)(?r :=
                   \<lparr>session_language_server = key, session_spec = sp, handlers = []\<rparr>),
                 next_ref := Suc ?r\<rparr>"
  from "2.prems" have fresh: "key \<notin> fst ` set acc" and d: "distinct (map fst rest)"
    and notin: "key \<notin> fst ` set rest" and disj: "fst ` set acc \<inter> fst ` set rest = {}"
    by auto
  have upd: "AList.update key ?r acc = acc @ [(key, ?r)]"
    using fresh by (rule update_fresh)
  have disj': "fst ` set (AList.update key ?r acc) \<inter> fst ` set rest = {}"
    using notin disj by (auto simp: upd)
  have ih: "fst (build_sessions rest (AList.update key ?r acc) ?m1) =
           AList.update key ?r acc @ zip (map fst rest) [next_ref ?m1 ..< next_ref ?m1 + length rest]
       \<and> snd (snd (build_sessions rest (AList.update key ?r acc) ?m1)) =
           map (\<lambda>(key, r). SessionCreated key r)
             (zip (map fst rest) [next_ref ?m1 ..< next_ref ?m1 + length rest])"
    by (rule "2.IH" [OF refl refl d disj'])
  have "?r < ?r + Suc (length rest)" by simp
  then have "[?r ..< ?r + Suc (length rest)] = ?r # [Suc ?r ..< ?r + Suc (length rest)]"
    by (rule upt_conv_Cons)
  then have range: "[?r ..< Suc (?r + length rest)] = ?r # [Suc ?r ..< Suc (?r + length rest)]"
    by (simp only: add_Suc_right)
  show ?case
    using ih by (simp add: Let_def split_beta upd range del: upt_Suc)
qed

lemma build_sessions_keeps:
  "language_servers (fst (snd (build_sessions specs acc m))) = language_servers m
   \<and> all_listeners (fst (snd (build_sessions specs acc m))) = all_listeners m
   \<and> client_listeners (fst (snd (build_sessions specs acc m))) = client_listeners m
   \<and> server_listeners (fst (snd (build_sessions specs acc m))) = server_listeners m"
  by (induction specs acc m rule: build_sessions.induct) (simp_all add: Let_def split_beta)

lemma init_sessions_distinct:
  assumes "distinct (map fst (language_servers m))"
  shows "snd (init_sessions m) =
           map (\<lambda>(key, r). SessionCreated key r) (sessions (fst (init_sessions m)))
       \<and> map fst (sessions (fst (init_sessions m))) = map fst (language_servers m)
       \<and> language_servers (fst (init_sessions m)) = language_servers m
       \<and> all_listeners (fst (init_sessions m)) = all_listeners m
       \<and> client_listeners (fst (init_sessions m)) = client_listeners m
       \<and> server_listeners (fst (init_sessions m)) = server_listeners m"
  using build_sessions_distinct [OF assms, of "[]" m] build_sessions_keeps [of "language_servers m" "[]" m]
  by (simp add: init_sessions_def split_beta)

lemma distinct_keys_filter:
  "distinct (map fst xs) \<Longrightarrow> distinct (map fst (filter P xs))"
  by (induction xs) auto

lemma distinct_resolved:
  "distinct (map fst (language_servers (fst (init_language_servers e m))))"
  by (simp add: init_language_servers_def Let_def split_beta collect_language_servers_def
      distinct_keys_filter distinct_merged)

text \<open>
  Claim C6, as amended. \<^verbatim>\<open>initialize\<close> resolves the specs, then registers the
  listeners, then builds the sessions. When it returns, what has happened is: first
  what resolving the specs logs, then events among which no session is created and
  which register the listeners of the scopes \<open>ALL\<close>, \<open>CLIENT\<close> and \<open>SERVER\<close> in
  this order, then the creation of one session for each key of the resolved
  \<^verbatim>\<open>language_servers\<close> and nothing else.
\<close>

theorem initialize_order:
  assumes "initialize e m = (Returns (), m', evs)"
  shows "\<exists>evs2. evs = snd (init_language_servers e m) @ evs2
                   @ map (\<lambda>(key, r). SessionCreated key r) (sessions m')
       \<and> (\<forall>ev\<in>set (snd (init_language_servers e m)). is_log ev)
       \<and> (\<forall>ev\<in>set evs2. \<not> is_session_created ev)
       \<and> filter is_listener_registered evs2 =
           map (ListenerRegistered MessageScope_ALL) (all_listeners m')
           @ map (ListenerRegistered MessageScope_CLIENT) (client_listeners m')
           @ map (ListenerRegistered MessageScope_SERVER) (server_listeners m')
       \<and> language_servers m' = language_servers (fst (init_language_servers e m))
       \<and> map fst (sessions m') = map fst (language_servers m')"
proof -
  let ?m1 = "fst (init_language_servers e m)"
  let ?evs1 = "snd (init_language_servers e m)"
  obtain r2 m2 evs2 where l: "init_listeners e ?m1 = (r2, m2, evs2)"
    by (cases "init_listeners e ?m1") auto
  have r2: "r2 = Returns ()"
    using assms l by (cases r2) (simp_all add: initialize_def split_beta)
  have m': "m' = fst (init_sessions m2)" and evs: "evs = ?evs1 @ evs2 @ snd (init_sessions m2)"
    using assms l r2 by (simp_all add: initialize_def split_beta)
  note f2 = init_listeners_returns [OF l [unfolded r2]]
  have "distinct (map fst (language_servers m2))"
    using f2 distinct_resolved [of e m] by simp
  note f3 = init_sessions_distinct [OF this]
  have "evs = ?evs1 @ evs2 @ map (\<lambda>(key, r). SessionCreated key r) (sessions m')"
    using f3 by (simp add: evs m')
  moreover have "\<forall>ev\<in>set ?evs1. is_log ev"
    by (rule init_language_servers_logs)
  moreover have "\<forall>ev\<in>set evs2. \<not> is_session_created ev"
    using f2 by simp
  moreover have "filter is_listener_registered evs2 =
           map (ListenerRegistered MessageScope_ALL) (all_listeners m')
           @ map (ListenerRegistered MessageScope_CLIENT) (client_listeners m')
           @ map (ListenerRegistered MessageScope_SERVER) (server_listeners m')"
    using f2 f3 by (simp add: m')
  moreover have "language_servers m' = language_servers ?m1"
    using f2 f3 by (simp add: m')
  moreover have "map fst (sessions m') = map fst (language_servers m')"
    using f3 by (simp add: m')
  ultimately show ?thesis by blast
qed

lemmas starting_defs =
  initialize_def init_listeners_def init_listeners_scope_def init_sessions_def
  register_message_listener_def get_listeners_def set_listeners_def starting_manager_def resolve_defs

lemma initialize_returns_starting:
  "fst (initialize blank_env starting_manager) = Returns ()"
  by (simp add: starting_defs)

theorem initialize_order_witness:
  "initialize blank_env starting_manager =
     (Returns (), fst (snd (initialize blank_env starting_manager)),
      snd (snd (initialize blank_env starting_manager))) \<and>
   (\<exists>evs2. snd (snd (initialize blank_env starting_manager)) =
       snd (init_language_servers blank_env starting_manager) @ evs2
         @ map (\<lambda>(key, r). SessionCreated key r)
             (sessions (fst (snd (initialize blank_env starting_manager))))
     \<and> filter is_listener_registered evs2 =
           map (ListenerRegistered MessageScope_ALL)
             (all_listeners (fst (snd (initialize blank_env starting_manager))))
           @ map (ListenerRegistered MessageScope_CLIENT)
             (client_listeners (fst (snd (initialize blank_env starting_manager))))
           @ map (ListenerRegistered MessageScope_SERVER)
             (server_listeners (fst (snd (initialize blank_env starting_manager)))))"
proof -
  have h: "initialize blank_env starting_manager =
     (Returns (), fst (snd (initialize blank_env starting_manager)),
      snd (snd (initialize blank_env starting_manager)))"
    using initialize_returns_starting by (simp add: prod_eq_iff)
  from initialize_order [OF h] h show ?thesis by blast
qed


text \<open>
  The claim as it is written fails: with one configured listener and one configured
  server, the listener is registered before the session is created.
\<close>

theorem initialize_order_counterexample:
  "snd (snd (initialize blank_env starting_manager)) =
     [ListenerRegistered MessageScope_CLIENT ''log_client'', SessionCreated ''pyls'' 0]"
  by (simp add: starting_defs)

text \<open>
  When registering the listeners raises, \<^verbatim>\<open>initialize\<close> raises with the specs
  resolved and no session built.
\<close>

lemma init_listeners_scope_keeps:
  assumes "init_listeners_scope e scope m = (r, m2, evs)"
  shows "(\<forall>ev\<in>set evs. \<not> is_session_created ev)
       \<and> language_servers m2 = language_servers m \<and> sessions m2 = sessions m"
proof (cases r)
  case (Returns u)
  with assms have "init_listeners_scope e scope m = (Returns (), m2, evs)" by simp
  from init_listeners_scope_returns [OF this] show ?thesis by simp
next
  case Raises
  with assms show ?thesis
    by (cases "listener_entry_points e scope")
       (auto simp: init_listeners_scope_def Let_def split_beta)
qed

lemma init_listeners_scopes_keeps:
  assumes "init_listeners_scopes e scopes m = (r, m', evs)"
  shows "(\<forall>ev\<in>set evs. \<not> is_session_created ev)
       \<and> language_servers m' = language_servers m \<and> sessions m' = sessions m"
  using assms
proof (induction scopes arbitrary: m r m' evs)
  case Nil
  then show ?case by simp
next
  case (Cons scope scopes)
  obtain r1 m1 evs1 where s1: "init_listeners_scope e scope m = (r1, m1, evs1)"
    by (cases "init_listeners_scope e scope m") auto
  note f1 = init_listeners_scope_keeps [OF s1]
  show ?case
  proof (cases r1)
    case Raises
    with Cons.prems s1 f1 show ?thesis by auto
  next
    case (Returns u)
    obtain r2 m2 evs2 where s2: "init_listeners_scopes e scopes m1 = (r2, m2, evs2)"
      by (cases "init_listeners_scopes e scopes m1") auto
    note f2 = Cons.IH [OF s2]
    from Cons.prems s1 s2 Returns have "m' = m2" and "evs = evs1 @ evs2"
      by (simp_all add: Let_def)
    with f1 f2 show ?thesis by auto
  qed
qed

lemma initialize_raises_before_sessions:
  assumes "initialize e m = (Raises, m', evs)"
  shows "sessions m' = sessions m
       \<and> (\<forall>ev\<in>set evs. \<not> is_session_created ev)
       \<and> language_servers m' = language_servers (fst (init_language_servers e m))"
proof -
  let ?m1 = "fst (init_language_servers e m)"
  obtain r2 m2 evs2 where l: "init_listeners e ?m1 = (r2, m2, evs2)"
    by (cases "init_listeners e ?m1") auto
  have r2: "r2 = Raises"
    using assms l by (cases r2) (simp_all add: initialize_def split_beta)
  have m': "m' = m2" and evs: "evs = snd (init_language_servers e m) @ evs2"
    using assms l r2 by (simp_all add: initialize_def split_beta)
  have keep: "sessions ?m1 = sessions m"
    by (simp add: init_language_servers_def Let_def split_beta)
  from init_listeners_scopes_keeps [OF l [unfolded init_listeners_def]] keep
    init_language_servers_logs [of e m]
  show ?thesis
    by (auto simp: m' evs logs_not_session_created)
qed


end
